theory Spec2Isabelle
  imports Main
begin

section \<open>The Definition of the BPMN engine (lib/Definition.js)\<close>

text \<open>
  The Definition owns the Process objects of one parsed graph model and drives one
  execution of them. The Process, ContextHelper, Environment and validation modules are
  collaborators of Definition.js: what they hand to the Definition (warnings, process
  ids, the executable process id, the events a Process emits while one of its methods
  runs) appears here as data, and every call the Definition makes on them, every event
  it emits and every invocation of the completion callback is appended to a trace.
  Listeners of the Definition's own events and the completion callback are observers:
  they do not call back into the Definition while they run.
\<close>

subsection \<open>Data\<close>

text \<open>An Error object (a validation warning or a thrown error), known by its message.\<close>

type_synonym error = string

text \<open>What a Process hands out as its output, and as its saved state (id and the rest).\<close>

type_synonym poutput = "(string \<times> string) list"

type_synonym pstate = "string \<times> string"

text \<open>A process execution object: \<open>pe_ref\<close> is the identity of the object
  (compared with \<open>===\<close> in \<open>onEnd\<close>), \<open>pe_id\<close> its \<open>id\<close> property.\<close>

record pexec =
  pe_ref :: nat
  pe_id :: string

text \<open>A message: \<open>message.via\<close> with its \<open>sourceId\<close>, \<open>id\<close> and \<open>targetId\<close>.\<close>

record message =
  sourceId :: string
  viaId :: string
  targetId :: string

text \<open>
  The events a Process emits to its listeners. JavaScript's emit is synchronous, so a
  handler of the Definition runs inside the Process method that emitted the event. The
  handler of a message calls a Process method itself (\<open>run\<close> or \<open>sendMessage\<close>); the events
  that Process emits during that nested call are the second argument of \<open>PMessage\<close>.
\<close>

datatype pevent =
    PEnter pexec
  | PStart
  | PMessage message "pevent list"
  | PEnd pexec poutput
  | PError error

text \<open>The events of the Definition itself.\<close>

datatype devent = EvEnter | EvStart | EvEnd | EvError error

text \<open>Everything the Definition does to the outside, in order.\<close>

datatype action =
    Emit devent
  | Callback "error option"
  | Run string
  | Resume string "pstate option"
  | StopProcess pexec
  | SendMessage pexec message
  | SignalProcess pexec
  | AssignResult poutput

text \<open>
  The constants of a DefinitionInstance: its id, the validation warnings, the ids of its
  Process objects (one per process element, in order), the executable process id
  (\<open>None\<close> for undefined), the owner process of a flow target as ContextHelper resolves
  it, and whether a listener for the Definition's error event is registered (Node's
  EventEmitter throws the error from \<open>emit\<close> when there is none).
\<close>

record defn =
  def_id :: string
  warnings :: "error list"
  processes :: "string list"
  entryPointId :: "string option"
  getTargetProcess :: "string \<Rightarrow> string option"
  errorListeners :: bool

text \<open>
  The variables of a DefinitionInstance and of its DefinitionExecution closure:
  \<open>definitionExecution\<close> tells whether an execution exists; \<open>callback\<close> whether
  \<open>completeCallback\<close> was given a callback; \<open>listening\<close> whether the handlers are
  attached to the Processes (\<open>setup\<close> and \<open>teardown\<close> of the source). \<open>immediates\<close> is the queue of
  \<open>setImmediate(sendMessage, id, message)\<close> tasks, \<open>thrown\<close> an exception that is
  propagating, \<open>trace\<close> the actions so far.
\<close>

record state =
  definitionExecution :: bool
  callback :: bool
  entered :: bool
  started :: bool
  stopped :: bool
  running :: "pexec list"
  completed :: "pexec list"
  listening :: bool
  immediates :: "(string \<times> message) list"
  thrown :: "error option"
  trace :: "action list"

definition init :: state where
  "init = \<lparr>definitionExecution = False, callback = False, entered = False, started = False,
     stopped = False, running = [], completed = [], listening = False, immediates = [],
     thrown = None, trace = []\<rparr>"

subsection \<open>JavaScript helpers\<close>

text \<open>\<open>Array.prototype.findIndex\<close>, with \<open>None\<close> for -1, and \<open>splice(i, 1)\<close>.\<close>

fun findIndex :: "('a \<Rightarrow> bool) \<Rightarrow> 'a list \<Rightarrow> nat option" where
  "findIndex P [] = None"
| "findIndex P (x # xs) = (if P x then Some 0 else map_option Suc (findIndex P xs))"

definition splice1 :: "nat \<Rightarrow> 'a list \<Rightarrow> 'a list" where
  "splice1 i xs = take i xs @ drop (Suc i) xs"

text \<open>\<open>!entryPointId\<close>: undefined and the empty string are falsy.\<close>

definition falsy :: "string option \<Rightarrow> bool" where
  "falsy e = (e = None \<or> e = Some [])"

definition act :: "action \<Rightarrow> state \<Rightarrow> state" where
  "act a st = st\<lparr>trace := trace st @ [a]\<rparr>"

definition throw :: "error \<Rightarrow> state \<Rightarrow> state" where
  "throw e st = st\<lparr>thrown := Some e\<rparr>"

text \<open>The statements after a call run only if the call did not throw.\<close>

definition andThen :: "state \<Rightarrow> (state \<Rightarrow> state) \<Rightarrow> state" where
  "andThen st f = (if thrown st = None then f st else st)"

text \<open>\<open>definition.emit\<close>: an error event without a listener is thrown.\<close>

definition emit :: "defn \<Rightarrow> devent \<Rightarrow> state \<Rightarrow> state" where
  "emit d ev st =
     (case ev of
        EvError e \<Rightarrow> if errorListeners d then act (Emit ev) st else throw e (act (Emit ev) st)
      | _ \<Rightarrow> act (Emit ev) st)"

subsection \<open>DefinitionExecution\<close>

definition setup_listeners :: "state \<Rightarrow> state" where
  "setup_listeners st = st\<lparr>listening := True\<rparr>"

definition teardown :: "state \<Rightarrow> state" where
  "teardown st = st\<lparr>listening := False\<rparr>"

text \<open>The function that \<open>completeCallback(callback)\<close> returns, stored in \<open>complete\<close>.\<close>

definition complete :: "defn \<Rightarrow> error option \<Rightarrow> state \<Rightarrow> state" where
  "complete d err st =
     (let st1 = teardown st in
      case err of
        Some e \<Rightarrow>
          if callback st1 then act (Callback (Some e)) st1
          else andThen (emit d (EvError e) st1) (emit d EvEnd)
      | None \<Rightarrow>
          emit d EvEnd (if callback st1 then act (Callback None) st1 else st1))"

definition getRunningIndexById :: "string \<Rightarrow> state \<Rightarrow> nat option" where
  "getRunningIndexById processId st = findIndex (\<lambda>p. pe_id p = processId) (running st)"

definition getProcessById :: "defn \<Rightarrow> string \<Rightarrow> string option" where
  "getProcessById d processId = find (\<lambda>p. p = processId) (processes d)"

definition mainProcess :: "defn \<Rightarrow> string option" where
  "mainProcess d = find (\<lambda>p. Some p = entryPointId d) (processes d)"

definition no_executable :: "defn \<Rightarrow> error" where
  "no_executable d = ''definition <'' @ def_id d @ ''> has no executable process''"

definition onEnter :: "defn \<Rightarrow> pexec \<Rightarrow> state \<Rightarrow> state" where
  "onEnter d processExecution st =
     (let st1 = st\<lparr>running := running st @ [processExecution]\<rparr>;
          st2 = (if \<not> entered st1 then emit d EvEnter st1 else st1)
      in st2\<lparr>entered := True\<rparr>)"

definition onStart :: "defn \<Rightarrow> state \<Rightarrow> state" where
  "onStart d st =
     (let st1 = (if \<not> started st then emit d EvStart st else st)
      in st1\<lparr>started := True\<rparr>)"

definition onEnd :: "defn \<Rightarrow> pexec \<Rightarrow> poutput \<Rightarrow> state \<Rightarrow> state" where
  "onEnd d processExecution out st =
     (let st1 = (case findIndex (\<lambda>p. pe_ref p = pe_ref processExecution) (running st) of
                   Some runningIndex \<Rightarrow>
                     act (AssignResult out)
                       (st\<lparr>completed := completed st @ [running st ! runningIndex],
                           running := splice1 runningIndex (running st)\<rparr>)
                 | None \<Rightarrow> st)
      in if running st1 = [] then complete d None st1 else st1)"

definition onError :: "defn \<Rightarrow> error \<Rightarrow> state \<Rightarrow> state" where
  "onError d e st = complete d (Some e) (teardown st)"

text \<open>The call \<open>running[runningIndex].sendMessage(message)\<close>; \<open>running[-1]\<close> is undefined.\<close>

definition sendMessage :: "string \<Rightarrow> message \<Rightarrow> state \<Rightarrow> state" where
  "sendMessage targetProcessId m st =
     (case getRunningIndexById targetProcessId st of
        None \<Rightarrow> throw ''TypeError'' st
      | Some runningIndex \<Rightarrow> act (SendMessage (running st ! runningIndex) m) st)"

definition setImmediate :: "string \<Rightarrow> message \<Rightarrow> state \<Rightarrow> state" where
  "setImmediate targetProcessId m st = st\<lparr>immediates := immediates st @ [(targetProcessId, m)]\<rparr>"

text \<open>
  The dispatch of a Process event to the handler attached for it, if the handlers are
  attached. \<open>handles\<close> runs the events a Process emits during one method call: an
  exception thrown by a handler leaves that method, so the rest is not emitted.
\<close>

fun handle :: "defn \<Rightarrow> pevent \<Rightarrow> state \<Rightarrow> state"
and handles :: "defn \<Rightarrow> pevent list \<Rightarrow> state \<Rightarrow> state"
and onMessage :: "defn \<Rightarrow> message \<Rightarrow> pevent list \<Rightarrow> state \<Rightarrow> state" where
  "handle d (PEnter pe) st = (if listening st then onEnter d pe st else st)"
| "handle d PStart st = (if listening st then onStart d st else st)"
| "handle d (PMessage m rs) st = (if listening st then onMessage d m rs st else st)"
| "handle d (PEnd pe out) st = (if listening st then onEnd d pe out st else st)"
| "handle d (PError e) st = (if listening st then onError d e st else st)"
| "handles d [] st = st"
| "handles d (e # es) st =
     (let st1 = handle d e st in if thrown st1 = None then handles d es st1 else st1)"
| "onMessage d m rs st =
     (case getTargetProcess d (targetId m) of
        None \<Rightarrow> throw ''TypeError'' st
      | Some targetElement \<Rightarrow>
          (case getRunningIndexById targetElement st of
             None \<Rightarrow>
               (case getProcessById d targetElement of
                  None \<Rightarrow> throw ''TypeError'' st
                | Some targetProcess \<Rightarrow>
                    andThen (handles d rs (act (Run targetProcess) st))
                      (setImmediate targetElement m))
           | Some runningIndex \<Rightarrow>
               andThen (sendMessage targetElement m st) (handles d rs)))"

text \<open>
  \<open>execute(callback)\<close>. \<open>rs\<close> are the events the entry Process emits while its \<open>run()\<close>
  is on the stack. \<open>mainProcess\<close> is undefined when no Process has the entry id.
\<close>

definition execute :: "defn \<Rightarrow> bool \<Rightarrow> pevent list \<Rightarrow> state \<Rightarrow> state" where
  "execute d cb rs st =
     (let st0 = st\<lparr>callback := cb\<rparr> in
      if warnings d \<noteq> [] then complete d (Some (hd (warnings d))) st0
      else if processes d = [] then complete d None st0
      else if falsy (entryPointId d) then complete d (Some (no_executable d)) st0
      else
        (case mainProcess d of
           None \<Rightarrow> throw ''TypeError'' (setup_listeners st0)
         | Some p \<Rightarrow> handles d rs (act (Run p) (setup_listeners st0))))"

text \<open>
  \<open>processes.forEach((p) => p.resume(state.processes[p.id]))\<close>: \<open>saved\<close> is
  \<open>state.processes\<close>, \<open>rs p\<close> the events Process \<open>p\<close> emits while it resumes.
\<close>

fun resume_each ::
  "defn \<Rightarrow> (string \<Rightarrow> pstate option) \<Rightarrow> (string \<Rightarrow> pevent list) \<Rightarrow> string list \<Rightarrow> state \<Rightarrow> state" where
  "resume_each d saved rs [] st = st"
| "resume_each d saved rs (p # ps) st =
     (let st1 = handles d (rs p) (act (Resume p (saved p)) st)
      in if thrown st1 = None then resume_each d saved rs ps st1 else st1)"

definition resume ::
  "defn \<Rightarrow> (string \<Rightarrow> pstate option) \<Rightarrow> bool \<Rightarrow> (string \<Rightarrow> pevent list) \<Rightarrow> state \<Rightarrow> state" where
  "resume d saved cb rs st =
     (let st0 = st\<lparr>callback := cb\<rparr> in
      if warnings d \<noteq> [] then complete d (Some (hd (warnings d))) st0
      else if processes d = [] then complete d None st0
      else resume_each d saved rs (processes d) (setup_listeners st0))"




text \<open>
  \<open>signal(...args)\<close>. What the Definition hands back is \<open>true\<close> or, when the loop runs
  out, nothing. \<open>sg pe\<close> is what \<open>pe.signal(...args)\<close> does: \<open>None\<close> when it reports a
  falsy value (the Process then emits nothing), \<open>Some rs\<close> when it reports a truthy
  one, having emitted \<open>rs\<close>.
\<close>

datatype jsvalue = JsTrue | JsFalse | JsUndefined

function signal_from ::
  "defn \<Rightarrow> (pexec \<Rightarrow> pevent list option) \<Rightarrow> nat \<Rightarrow> state \<Rightarrow> jsvalue \<times> state" where
  "signal_from d sg i st =
     (if i < length (running st) then
        (let pe = running st ! i; st1 = act (SignalProcess pe) st in
         case sg pe of
           Some rs \<Rightarrow>
             (let st2 = handles d rs st1
              in (if thrown st2 = None then JsTrue else JsUndefined, st2))
         | None \<Rightarrow> signal_from d sg (Suc i) st1)
      else (JsUndefined, st))"
  by pat_completeness auto
termination
  by (relation "measure (\<lambda>(d, sg, i, st). length (running st) - i)") (auto simp: act_def)

definition signal :: "defn \<Rightarrow> (pexec \<Rightarrow> pevent list option) \<Rightarrow> state \<Rightarrow> jsvalue \<times> state" where
  "signal d sg st = signal_from d sg 0 st"

text \<open>
  \<open>running.forEach((pe) => pe.stop())\<close>: forEach visits the indices below the length
  it started with and reads the array as it is at each index, so an element removed
  by a handler while a Process stops shifts the later ones. \<open>rs pe\<close> are the events
  \<open>pe\<close> emits while \<open>pe.stop()\<close> runs.
\<close>

function stop_each :: "defn \<Rightarrow> (pexec \<Rightarrow> pevent list) \<Rightarrow> nat \<Rightarrow> nat \<Rightarrow> state \<Rightarrow> state" where
  "stop_each d rs k len st =
     (if k < len then
        (if k < length (running st) then
           (let pe = running st ! k;
                st1 = handles d (rs pe) (act (StopProcess pe) st)
            in if thrown st1 = None then stop_each d rs (Suc k) len st1 else st1)
         else stop_each d rs (Suc k) len st)
      else st)"
  by pat_completeness auto
termination
  by (relation "measure (\<lambda>(d, rs, k, len, st). len - k)") auto

definition stop :: "defn \<Rightarrow> (pexec \<Rightarrow> pevent list) \<Rightarrow> state \<Rightarrow> state" where
  "stop d rs st =
     (let st1 = st\<lparr>stopped := True\<rparr>
      in andThen (stop_each d rs 0 (length (running st1)) st1) (complete d None))"

text \<open>A task queued by \<open>setImmediate(sendMessage, id, message)\<close> runs; \<open>rs\<close> are the
  events the receiving Process emits while \<open>sendMessage\<close> is on the stack.\<close>

definition run_immediate :: "defn \<Rightarrow> pevent list \<Rightarrow> state \<Rightarrow> state" where
  "run_immediate d rs st =
     (case immediates st of
        [] \<Rightarrow> st
      | (targetProcessId, m) # q \<Rightarrow>
          andThen (sendMessage targetProcessId m (st\<lparr>immediates := q\<rparr>)) (handles d rs))"

subsection \<open>DefinitionInstance\<close>

text \<open>
  \<open>DefinitionExecution(definitionApi)\<close>: a new closure with fresh variables. One run at
  a time is modelled: \<open>execute\<close> or \<open>resume\<close> on a Definition whose earlier run still has
  its handlers attached, where both closures would hear every Process event, is outside
  the model.
\<close>

definition DefinitionExecution :: "state \<Rightarrow> state" where
  "DefinitionExecution st =
     st\<lparr>definitionExecution := True, callback := False, entered := False, started := False,
        stopped := False, running := [], completed := [], listening := False\<rparr>"

text \<open>
  \<open>execute\<close>, \<open>resume\<close>, \<open>stop\<close>, \<open>signal\<close> and \<open>getState\<close> of the Definition. The
  options and the callback arrive already told apart (getOptionsAndCallback): \<open>cb\<close>
  says whether a callback was given. The options only replace the Environment and the
  listener, which the control flow below does not read. \<open>resume\<close> rebuilds each Process
  from its saved state, or afresh when it has none (\<open>resumeProcesses\<close>), before the
  execution resumes it with that saved state (\<open>saved p\<close>, \<open>None\<close> for undefined).
\<close>

definition definition_execute :: "defn \<Rightarrow> bool \<Rightarrow> pevent list \<Rightarrow> state \<Rightarrow> state" where
  "definition_execute d cb rs st = execute d cb rs (DefinitionExecution st)"

definition definition_resume ::
  "defn \<Rightarrow> (string \<Rightarrow> pstate option) \<Rightarrow> bool \<Rightarrow> (string \<Rightarrow> pevent list) \<Rightarrow> state \<Rightarrow> state" where
  "definition_resume d saved cb rs st =
     (if warnings d \<noteq> [] then
        (if \<not> cb then emit d (EvError (hd (warnings d))) st
         else act (Callback (Some (hd (warnings d)))) st)
      else resume d saved cb rs (DefinitionExecution st))"

definition definition_stop :: "defn \<Rightarrow> (pexec \<Rightarrow> pevent list) \<Rightarrow> state \<Rightarrow> state" where
  "definition_stop d rs st = (if definitionExecution st then stop d rs st else st)"

definition definition_signal ::
  "defn \<Rightarrow> (pexec \<Rightarrow> pevent list option) \<Rightarrow> state \<Rightarrow> jsvalue \<times> state" where
  "definition_signal d sg st =
     (if definitionExecution st then signal d sg st else (JsUndefined, st))"



subsection \<open>What can happen after a run has begun\<close>

text \<open>
  After \<open>execute\<close> or \<open>resume\<close> has returned, each further turn of the event loop is one
  of: a Process emits an event on its own (a timer, a signal given to an activity), a
  queued immediate runs, or the caller invokes \<open>signal\<close> or \<open>stop\<close>. Each turn begins
  with an empty stack, hence with no exception propagating.
\<close>

datatype input =
    ProcessEvent pevent
  | Immediate "pevent list"
  | CallSignal "(nat \<times> pevent list) list"
  | CallStop "(nat \<times> pevent list) list"

text \<open>
  The argument of \<open>CallSignal\<close> lists the process executions (by identity) that consume
  the signal, each with the events it then emits; that of \<open>CallStop\<close> lists the events
  a process execution emits while it stops (none for one that is not listed).
\<close>

definition consumed_by :: "(nat \<times> pevent list) list \<Rightarrow> pexec \<Rightarrow> pevent list option" where
  "consumed_by al pe = map_of al (pe_ref pe)"

definition emitted_by :: "(nat \<times> pevent list) list \<Rightarrow> pexec \<Rightarrow> pevent list" where
  "emitted_by al pe = (case map_of al (pe_ref pe) of None \<Rightarrow> [] | Some rs \<Rightarrow> rs)"

definition step :: "defn \<Rightarrow> input \<Rightarrow> state \<Rightarrow> state" where
  "step d i st =
     (let st0 = st\<lparr>thrown := None\<rparr> in
      case i of
        ProcessEvent e \<Rightarrow> handle d e st0
      | Immediate rs \<Rightarrow> run_immediate d rs st0
      | CallSignal al \<Rightarrow> snd (definition_signal d (consumed_by al) st0)
      | CallStop al \<Rightarrow> definition_stop d (emitted_by al) st0)"

definition steps :: "defn \<Rightarrow> input list \<Rightarrow> state \<Rightarrow> state" where
  "steps d ins st = fold (step d) ins st"

section \<open>Multi-instance loops of an Activity\<close>

text \<open>
  Modelled from the spec: the code that names the ExecutionContexts of an Activity
  (the Activity and its loop controller) is not among the sources. The spec gives the
  id of a singular run as the Activity id, and the id inside a loop, sequential or
  parallel, as the Activity id, an underscore and the loop index.
\<close>

datatype activation = Singular | Sequential nat | Parallel nat

definition digit :: "nat \<Rightarrow> char" where
  "digit n = ''0123456789'' ! n"

function decimal :: "nat \<Rightarrow> string" where
  "decimal n = (if n < 10 then [digit n] else decimal (n div 10) @ [digit (n mod 10)])"
  by pat_completeness auto
termination
  by (relation "measure id") auto

definition executionContextId :: "string \<Rightarrow> activation \<Rightarrow> string" where
  "executionContextId activityId a =
     (case a of
        Singular \<Rightarrow> activityId
      | Sequential index \<Rightarrow> activityId @ ''_'' @ decimal index
      | Parallel index \<Rightarrow> activityId @ ''_'' @ decimal index)"

text \<open>
  Modelled from the spec: the loop controller in parallel mode is not among the
  sources. At loop entry it spawns one ExecutionContext per item, each of which emits
  \<open>wait\<close>; a signal to a waiting context ends that iteration and stores its result at
  the position fixed when the context was spawned; the Activity's own end follows the
  last iteration to end and carries the aggregated list.
\<close>

datatype loop_event = Wait string | EndIteration string | EndActivity "string list"

record loop_state =
  loop_activity :: string
  waiting :: "nat list"
  completedResults :: "string option list"
  loop_events :: "loop_event list"

definition run_parallel :: "string \<Rightarrow> nat \<Rightarrow> loop_state" where
  "run_parallel activityId cardinality =
     \<lparr>loop_activity = activityId,
      waiting = [0..<cardinality],
      completedResults = replicate cardinality None,
      loop_events = map (\<lambda>i. Wait (executionContextId activityId (Parallel i))) [0..<cardinality]\<rparr>"

fun collect :: "string option list \<Rightarrow> string list" where
  "collect [] = []"
| "collect (None # rs) = collect rs"
| "collect (Some r # rs) = r # collect rs"

definition signal_context :: "nat \<Rightarrow> string \<Rightarrow> loop_state \<Rightarrow> loop_state" where
  "signal_context i v ls =
     (if i \<in> set (waiting ls) then
        (let results = (completedResults ls)[i := Some v];
             rest = removeAll i (waiting ls);
             ended = [EndIteration (executionContextId (loop_activity ls) (Parallel i))]
         in ls\<lparr>waiting := rest, completedResults := results,
               loop_events := loop_events ls @ ended
                  @ (if rest = [] then [EndActivity (collect results)] else [])\<rparr>)
      else ls)"

text \<open>The contexts are signalled in the given order, context \<open>i\<close> with the value \<open>val i\<close>.\<close>

definition signal_all :: "(nat \<Rightarrow> string) \<Rightarrow> nat list \<Rightarrow> loop_state \<Rightarrow> loop_state" where
  "signal_all val order ls = fold (\<lambda>i. signal_context i (val i)) order ls"

fun is_wait :: "loop_event \<Rightarrow> bool" where
  "is_wait (Wait _) = True"
| "is_wait _ = False"

definition aggregated :: "loop_state \<Rightarrow> string list option" where
  "aggregated ls =
     (case [rs. EndActivity rs \<leftarrow> loop_events ls] of [] \<Rightarrow> None | rs # _ \<Rightarrow> Some rs)"

section \<open>Invariants of a run\<close>

declare signal_from.simps [simp del] stop_each.simps [simp del]

text \<open>The actions that are calls of a Process method.\<close>

fun is_call :: "action \<Rightarrow> bool" where
  "is_call (Emit _) = False"
| "is_call (Callback _) = False"
| "is_call (AssignResult _) = False"
| "is_call _ = True"

text \<open>
  A property of the state is stable when the handlers that write the state keep it and
  the remaining writes (a call of a Process, an exception, the queue of immediates, the
  attachment of the handlers, the callback, the stop mark) do not disturb it. A stable
  property that holds when a run begins holds throughout the run.
\<close>

definition stable :: "(state \<Rightarrow> bool) \<Rightarrow> bool" where
  "stable P =
     ((\<forall>d pe st. P st \<longrightarrow> P (onEnter d pe st))
      \<and> (\<forall>d st. P st \<longrightarrow> P (onStart d st))
      \<and> (\<forall>d pe out st. P st \<longrightarrow> P (onEnd d pe out st))
      \<and> (\<forall>d err st. P st \<longrightarrow> P (complete d err st))
      \<and> (\<forall>a st. is_call a \<longrightarrow> P st \<longrightarrow> P (act a st))
      \<and> (\<forall>st v. P st \<longrightarrow> P (st\<lparr>thrown := v\<rparr>))
      \<and> (\<forall>st q. P st \<longrightarrow> P (st\<lparr>immediates := q\<rparr>))
      \<and> (\<forall>st b. P st \<longrightarrow> P (st\<lparr>listening := b\<rparr>))
      \<and> (\<forall>st b. P st \<longrightarrow> P (st\<lparr>callback := b\<rparr>))
      \<and> (\<forall>st. P st \<longrightarrow> P (st\<lparr>stopped := True\<rparr>)))"

text \<open>The enter and the start event were emitted at most once, and only with their flag set.\<close>

definition once_each :: "state \<Rightarrow> bool" where
  "once_each st =
     (count_list (trace st) (Emit EvEnter) \<le> (if entered st then 1 else 0)
      \<and> count_list (trace st) (Emit EvStart) \<le> (if started st then 1 else 0))"


text \<open>Process events without an error event, also in what a nested call emits.\<close>

fun error_free :: "pevent \<Rightarrow> bool"
and error_frees :: "pevent list \<Rightarrow> bool" where
  "error_free (PError e) = False"
| "error_free (PMessage m rs) = error_frees rs"
| "error_free (PEnter pe) = True"
| "error_free PStart = True"
| "error_free (PEnd pe out) = True"
| "error_frees [] = True"
| "error_frees (e # es) = (error_free e \<and> error_frees es)"

text \<open>The turns of a run that is not stopped and in which no Process reports an error.\<close>

fun process_driven :: "input \<Rightarrow> bool" where
  "process_driven (ProcessEvent e) = error_free e"
| "process_driven (Immediate rs) = error_frees rs"
| "process_driven (CallSignal al) = list_all (\<lambda>kv. error_frees (snd kv)) al"
| "process_driven (CallStop al) = False"

text \<open>The actions of a completion: the end event and the completion callback.\<close>

fun is_completion :: "action \<Rightarrow> bool" where
  "is_completion (Emit EvEnd) = True"
| "is_completion (Callback _) = True"
| "is_completion _ = False"

fun is_assign :: "action \<Rightarrow> bool" where
  "is_assign (AssignResult _) = True"
| "is_assign _ = False"

text \<open>Once a completion has happened, no Process is running and no handler is attached.\<close>

definition settled :: "state \<Rightarrow> bool" where
  "settled st = (list_ex is_completion (trace st) \<longrightarrow> running st = [] \<and> \<not> listening st)"

text \<open>One output was handed to the Environment for each completed Process.\<close>

definition results_match :: "state \<Rightarrow> bool" where
  "results_match st = (length (filter is_assign (trace st)) = length (completed st))"


declare decimal.simps [simp del]

text \<open>
  What a parallel loop over \<open>c\<close> items looks like when the contexts in \<open>done\<close> have been
  signalled: the others wait, the result of each signalled context sits at its spawn
  index, the \<open>c\<close> wait events of the loop entry are the only ones, and the Activity has
  ended, with the results in spawn order, exactly when every context was signalled.
\<close>

definition tracks :: "string \<Rightarrow> nat \<Rightarrow> (nat \<Rightarrow> string) \<Rightarrow> nat set \<Rightarrow> loop_state \<Rightarrow> bool" where
  "tracks activityId c val done ls =
     (loop_activity ls = activityId
      \<and> waiting ls = filter (\<lambda>i. i \<notin> done) [0..<c]
      \<and> completedResults ls = map (\<lambda>i. if i \<in> done then Some (val i) else None) [0..<c]
      \<and> filter is_wait (loop_events ls)
          = map (\<lambda>i. Wait (executionContextId activityId (Parallel i))) [0..<c]
      \<and> [rs. EndActivity rs \<leftarrow> loop_events ls]
          = (if 0 < c \<and> {..<c} \<subseteq> done then [map val [0..<c]] else []))"




section \<open>Properties\<close>

subsection \<open>Executing a graph model without an executable process\<close>

lemma complete_error_trace:
  "\<exists>rest. trace (complete d (Some e) st) =
      trace st @ (if callback st then Callback (Some e) else Emit (EvError e)) # rest
    \<and> set rest \<subseteq> {Emit EvEnd}"
  by (auto simp: complete_def Let_def teardown_def act_def emit_def andThen_def throw_def)

lemma complete_keeps_running: "running (complete d err st) = running st"
  by (simp add: complete_def Let_def teardown_def act_def emit_def andThen_def throw_def
      split: option.splits)

lemma complete_not_listening: "\<not> listening (complete d err st)"
  by (simp add: complete_def Let_def teardown_def act_def emit_def andThen_def throw_def
      split: option.splits)

text \<open>
  C1, as the code has it. For a graph model without warnings, with at least one
  process and with no executable process id, \<open>execute\<close> delivers the error \<open>definition
  <id> has no executable process\<close> as its first action (to the callback if one was
  given, as the error event otherwise). When validation left warnings, whatever the
  processes and the entry id are, the first warning is delivered in the same way. In
  both cases nothing but the end event can follow, so \<open>run\<close> is called on no Process; no
  Process is in the running list and no handler stays attached. For a graph model
  without warnings and with no process at all, \<open>execute\<close> completes without an error:
  the callback, if one was given, is called without an error, the end event is emitted,
  and nothing else happens.
\<close>

theorem execute_no_executable_process:
  "(warnings d = [] \<and> processes d \<noteq> [] \<and> falsy (entryPointId d) \<longrightarrow>
      (\<exists>rest. trace (definition_execute d cb rs st) =
           trace st @ (if cb then Callback (Some (no_executable d))
                       else Emit (EvError (no_executable d))) # rest
         \<and> set rest \<subseteq> {Emit EvEnd})
      \<and> running (definition_execute d cb rs st) = []
      \<and> \<not> listening (definition_execute d cb rs st))
   \<and> (warnings d = w # ws \<longrightarrow>
      (\<exists>rest. trace (definition_execute d cb rs st) =
           trace st @ (if cb then Callback (Some w) else Emit (EvError w)) # rest
         \<and> set rest \<subseteq> {Emit EvEnd})
      \<and> running (definition_execute d cb rs st) = []
      \<and> \<not> listening (definition_execute d cb rs st))
   \<and> (warnings d = [] \<and> processes d = [] \<longrightarrow>
      trace (definition_execute d cb rs st) =
        trace st @ (if cb then [Callback None] else []) @ [Emit EvEnd]
      \<and> running (definition_execute d cb rs st) = []
      \<and> \<not> listening (definition_execute d cb rs st)
      \<and> thrown (definition_execute d cb rs st) = thrown st)"
proof -
  let ?st0 = "(DefinitionExecution st)\<lparr>callback := cb\<rparr>"
  have tr: "trace ?st0 = trace st" and cb: "callback ?st0 = cb" and rn: "running ?st0 = []"
    and th: "thrown ?st0 = thrown st"
    by (simp_all add: DefinitionExecution_def)
  have failing: "(\<exists>rest. trace (complete d (Some e) ?st0) =
           trace st @ (if cb then Callback (Some e) else Emit (EvError e)) # rest
         \<and> set rest \<subseteq> {Emit EvEnd})
      \<and> running (complete d (Some e) ?st0) = []
      \<and> \<not> listening (complete d (Some e) ?st0)" for e
    using complete_error_trace [of d e ?st0]
    by (simp add: tr cb rn complete_keeps_running complete_not_listening)
  have a: "definition_execute d cb rs st = complete d (Some (no_executable d)) ?st0"
    if "warnings d = []" "processes d \<noteq> []" "falsy (entryPointId d)"
    using that by (simp add: definition_execute_def execute_def Let_def)
  have b: "definition_execute d cb rs st = complete d (Some w) ?st0" if "warnings d = w # ws"
    using that by (simp add: definition_execute_def execute_def Let_def)
  have c: "definition_execute d cb rs st = complete d None ?st0"
    if "warnings d = []" "processes d = []"
    using that by (simp add: definition_execute_def execute_def Let_def)
  have n: "trace (complete d None ?st0) = trace st @ (if cb then [Callback None] else []) @ [Emit EvEnd]
      \<and> running (complete d None ?st0) = [] \<and> \<not> listening (complete d None ?st0)
      \<and> thrown (complete d None ?st0) = thrown st"
    by (simp add: complete_def Let_def teardown_def emit_def act_def DefinitionExecution_def)
  show ?thesis
    using failing [of "no_executable d"] failing [of w] a b c n by auto
qed

theorem execute_no_executable_process_witness:
  "warnings \<lparr>def_id = ''d1'', warnings = [], processes = [''p1''], entryPointId = None,
      getTargetProcess = Map.empty, errorListeners = True\<rparr> = []
   \<and> processes \<lparr>def_id = ''d1'', warnings = [], processes = [''p1''], entryPointId = None,
      getTargetProcess = Map.empty, errorListeners = True\<rparr> \<noteq> []
   \<and> falsy (entryPointId \<lparr>def_id = ''d1'', warnings = [], processes = [''p1''],
      entryPointId = None, getTargetProcess = Map.empty, errorListeners = True\<rparr>)
   \<and> trace (definition_execute \<lparr>def_id = ''d1'', warnings = [], processes = [''p1''],
        entryPointId = None, getTargetProcess = Map.empty, errorListeners = True\<rparr>
        True [] init)
      = [Callback (Some ''definition <d1> has no executable process'')]
   \<and> warnings \<lparr>def_id = ''d1'', warnings = [''w1'', ''w2''], processes = [''p1''],
      entryPointId = Some ''p1'', getTargetProcess = Map.empty, errorListeners = True\<rparr>
      = ''w1'' # [''w2'']
   \<and> trace (definition_execute \<lparr>def_id = ''d1'', warnings = [''w1'', ''w2''],
        processes = [''p1''], entryPointId = Some ''p1'', getTargetProcess = Map.empty,
        errorListeners = True\<rparr> True [PEnter \<lparr>pe_ref = 1, pe_id = ''p1''\<rparr>] init)
      = [Callback (Some ''w1'')]
   \<and> processes \<lparr>def_id = ''d1'', warnings = [], processes = [], entryPointId = None,
      getTargetProcess = Map.empty, errorListeners = True\<rparr> = []
   \<and> trace (definition_execute \<lparr>def_id = ''d1'', warnings = [], processes = [],
        entryPointId = None, getTargetProcess = Map.empty, errorListeners = True\<rparr>
        False [] init)
      = [Emit EvEnd]"
proof -
  let ?a = "\<lparr>def_id = ''d1'', warnings = [], processes = [''p1''], entryPointId = None,
      getTargetProcess = Map.empty, errorListeners = True\<rparr>"
  let ?b = "\<lparr>def_id = ''d1'', warnings = [''w1'', ''w2''], processes = [''p1''],
      entryPointId = Some ''p1'', getTargetProcess = Map.empty, errorListeners = True\<rparr>"
  let ?c = "\<lparr>def_id = ''d1'', warnings = [], processes = [], entryPointId = None,
      getTargetProcess = Map.empty, errorListeners = True\<rparr>"
  have e: "no_executable ?a = ''definition <d1> has no executable process''"
    and f: "falsy (entryPointId ?a)"
    by (simp_all add: no_executable_def falsy_def)
  have t: "trace (definition_execute ?a True [] init)
             = [Callback (Some ''definition <d1> has no executable process'')]"
    "trace (definition_execute ?b True [PEnter \<lparr>pe_ref = 1, pe_id = ''p1''\<rparr>] init)
             = [Callback (Some ''w1'')]"
    by code_simp+
  show ?thesis
    using e f t
      execute_no_executable_process [where d = ?a and cb = True and rs = "[]" and st = init]
      execute_no_executable_process [where d = ?b and cb = True and w = "''w1''"
        and ws = "[''w2'']" and rs = "[PEnter \<lparr>pe_ref = 1, pe_id = ''p1''\<rparr>]" and st = init]
      execute_no_executable_process [where d = ?c and cb = False and rs = "[]" and st = init]
    by (simp add: init_def)
qed

text \<open>
  C1 as stated fails: a graph model with no process at all has no executable process,
  and its execution completes without any error: the callback gets no error and the
  end event follows.
\<close>

theorem execute_no_process_counterexample:
  "falsy (entryPointId \<lparr>def_id = ''d1'', warnings = [], processes = [], entryPointId = None,
      getTargetProcess = Map.empty, errorListeners = True\<rparr>)
   \<and> trace (definition_execute \<lparr>def_id = ''d1'', warnings = [], processes = [],
        entryPointId = None, getTargetProcess = Map.empty, errorListeners = True\<rparr>
        True [] init) = [Callback None, Emit EvEnd]
   \<and> thrown (definition_execute \<lparr>def_id = ''d1'', warnings = [], processes = [],
        entryPointId = None, getTargetProcess = Map.empty, errorListeners = True\<rparr>
        True [] init) = None"
  by (simp add: falsy_def definition_execute_def execute_def DefinitionExecution_def init_def
      complete_def Let_def teardown_def act_def emit_def)

subsection \<open>Resuming with validation warnings\<close>

text \<open>
  C2. Whatever the saved state is, when validation left at least one warning,
  \<open>resume\<close> of the Definition does one thing: it hands the first warning to the
  callback if there is one and emits it as the error event otherwise. It creates no
  execution, attaches no handler and resumes no Process.
\<close>

theorem resume_with_warnings:
  assumes "warnings d = w # ws"
  shows "trace (definition_resume d saved cb rs st) =
           trace st @ [if cb then Callback (Some w) else Emit (EvError w)]
         \<and> definitionExecution (definition_resume d saved cb rs st) = definitionExecution st
         \<and> listening (definition_resume d saved cb rs st) = listening st
         \<and> running (definition_resume d saved cb rs st) = running st
         \<and> (\<forall>p s. Resume p s \<in> set (trace (definition_resume d saved cb rs st))
               \<longrightarrow> Resume p s \<in> set (trace st))"
  using assms by (auto simp: definition_resume_def emit_def act_def throw_def)

theorem resume_with_warnings_witness:
  "warnings \<lparr>def_id = ''d1'', warnings = [''w1'', ''w2''], processes = [''p1''],
      entryPointId = Some ''p1'', getTargetProcess = Map.empty, errorListeners = True\<rparr>
     = ''w1'' # [''w2'']
   \<and> trace (definition_resume \<lparr>def_id = ''d1'', warnings = [''w1'', ''w2''],
        processes = [''p1''], entryPointId = Some ''p1'', getTargetProcess = Map.empty,
        errorListeners = True\<rparr> Map.empty False (\<lambda>p. [PEnter \<lparr>pe_ref = 0, pe_id = p\<rparr>]) init)
      = [Emit (EvError ''w1'')]"
  using resume_with_warnings [of "\<lparr>def_id = ''d1'', warnings = [''w1'', ''w2''],
        processes = [''p1''], entryPointId = Some ''p1'', getTargetProcess = Map.empty,
        errorListeners = True\<rparr>" "''w1''" "[''w2'']" Map.empty False
        "\<lambda>p. [PEnter \<lparr>pe_ref = 0, pe_id = p\<rparr>]" init]
  by (simp add: init_def)

subsection \<open>Stable properties hold throughout a run\<close>

lemma stable_handle:
  assumes "stable P"
  shows "P st \<longrightarrow> P (handle d e st)"
    and "P st \<longrightarrow> P (handles d es st)"
    and "P st \<longrightarrow> P (onMessage d m rs st)"
proof (induction d e st and d es st and d m rs st rule: handle_handles_onMessage.induct)
  case (5 d e st)
  have "P st \<Longrightarrow> P (onError d e st)"
    using assms by (simp add: onError_def teardown_def stable_def)
  then show ?case by simp
next
  case (8 d m rs st)
  have a: "P s \<Longrightarrow> P (throw e s)" for e s
    using assms by (simp add: throw_def stable_def)
  have b: "is_call a \<Longrightarrow> P s \<Longrightarrow> P (act a s)" for a s
    using assms by (simp add: stable_def)
  have c: "P s \<Longrightarrow> P (setImmediate t m s)" for t s
    using assms by (simp add: setImmediate_def stable_def)
  from 8 show ?case
    by (auto simp: andThen_def sendMessage_def a b c split: option.splits)
qed (use assms in \<open>auto simp: stable_def Let_def\<close>)

lemma stable_handles: "stable P \<Longrightarrow> P st \<Longrightarrow> P (handles d es st)"
  using stable_handle(2) by blast

lemma stable_sendMessage: "stable P \<Longrightarrow> P st \<Longrightarrow> P (sendMessage t m st)"
  by (auto simp: sendMessage_def throw_def stable_def split: option.splits)

lemma stable_signal_from: "stable P \<Longrightarrow> P st \<Longrightarrow> P (snd (signal_from d sg i st))"
proof (induction d sg i st rule: signal_from.induct)
  case (1 d sg i st)
  have b: "is_call a \<Longrightarrow> P s \<Longrightarrow> P (act a s)" for a s
    using 1(2) by (simp add: stable_def)
  show ?case
  proof (cases "i < length (running st)")
    case False
    then show ?thesis using 1 by (simp add: signal_from.simps [of d sg i st])
  next
    case True
    then show ?thesis
      using 1 by (cases "sg (running st ! i)")
        (auto simp: signal_from.simps [of d sg i st] Let_def b stable_handles)
  qed
qed

lemma stable_stop_each: "stable P \<Longrightarrow> P st \<Longrightarrow> P (stop_each d rs k len st)"
proof (induction d rs k len st rule: stop_each.induct)
  case (1 d rs k len st)
  have b: "is_call a \<Longrightarrow> P s \<Longrightarrow> P (act a s)" for a s
    using 1(3) by (simp add: stable_def)
  from 1 show ?case
    by (auto simp: Let_def b stable_handles stop_each.simps [of d rs k len st])
qed

lemma stable_stop: "stable P \<Longrightarrow> P st \<Longrightarrow> P (stop d rs st)"
proof -
  assume s: "stable P" and "P st"
  then have "P (st\<lparr>stopped := True\<rparr>)"
    by (simp add: stable_def)
  then have "P (stop_each d rs 0 (length (running st)) (st\<lparr>stopped := True\<rparr>))"
    using s by (simp add: stable_stop_each)
  then show ?thesis
    using s by (simp add: stop_def Let_def andThen_def stable_def)
qed

lemma stable_run_immediate: "stable P \<Longrightarrow> P st \<Longrightarrow> P (run_immediate d rs st)"
proof (cases "immediates st")
  case Nil
  assume "P st"
  then show ?thesis using Nil by (simp add: run_immediate_def)
next
  case (Cons tm q)
  assume s: "stable P" and "P st"
  then have "P (st\<lparr>immediates := q\<rparr>)"
    by (simp add: stable_def)
  then have "P (sendMessage (fst tm) (snd tm) (st\<lparr>immediates := q\<rparr>))"
    using s by (rule stable_sendMessage [rotated])
  then show ?thesis
    using Cons s by (cases tm) (simp add: run_immediate_def andThen_def stable_handles)
qed

lemma stable_step: "stable P \<Longrightarrow> P st \<Longrightarrow> P (step d i st)"
proof -
  assume s: "stable P" and "P st"
  then have a: "P (st\<lparr>thrown := None\<rparr>)"
    by (simp add: stable_def)
  have sgn: "P (snd (definition_signal d sg (st\<lparr>thrown := None\<rparr>)))" for sg
    using a s by (simp add: definition_signal_def signal_def stable_signal_from)
  have stp: "P (definition_stop d rs (st\<lparr>thrown := None\<rparr>))" for rs
    using a s by (simp add: definition_stop_def stable_stop)
  show ?thesis
    by (cases i) (simp_all only: step_def Let_def input.case sgn stp
        stable_handle(1) [OF s, rule_format, OF a] stable_run_immediate [OF s a])
qed

lemma stable_steps: "stable P \<Longrightarrow> P st \<Longrightarrow> P (steps d ins st)"
  unfolding steps_def by (induction ins arbitrary: st) (simp_all add: stable_step)

lemma stable_execute: "stable P \<Longrightarrow> P st \<Longrightarrow> P (execute d cb rs st)"
proof -
  assume s: "stable P" and "P st"
  then have a: "P (st\<lparr>callback := cb\<rparr>)"
    by (simp add: stable_def)
  then have b: "P (setup_listeners (st\<lparr>callback := cb\<rparr>))"
    using s by (simp add: setup_listeners_def stable_def)
  then have c: "P (act (Run p) (setup_listeners (st\<lparr>callback := cb\<rparr>)))" for p
    using s by (simp add: stable_def)
  have e: "P (throw x (setup_listeners (st\<lparr>callback := cb\<rparr>)))" for x
    using b s by (simp add: throw_def stable_def)
  have f: "P (complete d err (st\<lparr>callback := cb\<rparr>))" for err
    using a s by (simp add: stable_def)
  show ?thesis
    by (simp add: execute_def Let_def e f stable_handles [OF s c] split: option.splits)
qed

lemma stable_resume_each: "stable P \<Longrightarrow> P st \<Longrightarrow> P (resume_each d saved rs ps st)"
proof (induction ps arbitrary: st)
  case Nil
  then show ?case by simp
next
  case (Cons p ps)
  have "P (act (Resume p (saved p)) st)"
    using Cons.prems by (simp add: stable_def)
  then show ?case
    using Cons by (simp add: Let_def stable_handles)
qed

lemma stable_resume: "stable P \<Longrightarrow> P st \<Longrightarrow> P (resume d saved cb rs st)"
proof -
  assume s: "stable P" and "P st"
  then have a: "P (st\<lparr>callback := cb\<rparr>)"
    by (simp add: stable_def)
  then have b: "P (setup_listeners (st\<lparr>callback := cb\<rparr>))"
    using s by (simp add: setup_listeners_def stable_def)
  have f: "P (complete d err (st\<lparr>callback := cb\<rparr>))" for err
    using a s by (simp add: stable_def)
  show ?thesis
    by (simp add: resume_def Let_def f stable_resume_each [OF s b])
qed

subsection \<open>The enter and start events of the Definition\<close>

lemma count_list_append: "count_list (xs @ ys) a = count_list xs a + count_list ys a"
  by (induction xs) auto

lemma once_each_act:
  "a \<noteq> Emit EvEnter \<Longrightarrow> a \<noteq> Emit EvStart \<Longrightarrow> once_each (act a st) = once_each st"
  by (simp add: once_each_def act_def count_list_append)

lemma once_each_throw: "once_each (throw e st) = once_each st"
  by (simp add: once_each_def throw_def)

lemma once_each_emit:
  "ev \<noteq> EvEnter \<Longrightarrow> ev \<noteq> EvStart \<Longrightarrow> once_each (emit d ev st) = once_each st"
  by (cases ev) (simp_all add: emit_def once_each_act once_each_throw)

lemma once_each_teardown: "once_each (teardown st) = once_each st"
  by (simp add: once_each_def teardown_def)

lemma once_each_complete: "once_each st \<Longrightarrow> once_each (complete d err st)"
  by (cases err)
     (simp_all add: complete_def Let_def andThen_def once_each_emit once_each_act
        once_each_teardown)

lemma once_each_onEnter: "once_each st \<Longrightarrow> once_each (onEnter d pe st)"
  by (auto simp: onEnter_def Let_def once_each_def emit_def act_def count_list_append
      split: if_splits)

lemma once_each_onStart: "once_each st \<Longrightarrow> once_each (onStart d st)"
  by (auto simp: onStart_def Let_def once_each_def emit_def act_def count_list_append
      split: if_splits)

lemma once_each_onEnd: "once_each st \<Longrightarrow> once_each (onEnd d pe out st)"
proof -
  assume a: "once_each st"
  have b: "once_each (act (AssignResult out) (st\<lparr>completed := c, running := r\<rparr>))" for c r
    using a by (simp add: once_each_act) (simp add: once_each_def)
  show ?thesis
    by (auto simp: onEnd_def Let_def a b once_each_complete split: option.splits)
qed

lemma once_each_call: "is_call a \<Longrightarrow> once_each st \<Longrightarrow> once_each (act a st)"
  by (cases a) (simp_all add: once_each_act)

lemma stable_once_each: "stable once_each"
  unfolding stable_def
  by (intro conjI allI impI once_each_onEnter once_each_onStart once_each_onEnd
      once_each_complete once_each_call; simp add: once_each_def)

text \<open>
  C10. In a run begun by \<open>execute\<close> or by \<open>resume\<close>, whatever the Processes emit
  afterwards (also a message that spins up a second Process, which then enters and
  starts), whatever immediates run and whatever the caller signals or stops, the
  Definition emits its enter event at most once and its start event at most once.
\<close>

theorem enter_and_start_once:
  "count_list (trace (steps d ins (definition_execute d cb rs init))) (Emit EvEnter) \<le> 1
   \<and> count_list (trace (steps d ins (definition_execute d cb rs init))) (Emit EvStart) \<le> 1
   \<and> count_list (trace (steps d ins (definition_resume d saved cb rs' init))) (Emit EvEnter) \<le> 1
   \<and> count_list (trace (steps d ins (definition_resume d saved cb rs' init))) (Emit EvStart) \<le> 1"
proof -
  have f: "once_each (DefinitionExecution init)"
    by (simp add: once_each_def DefinitionExecution_def init_def)
  have "once_each (definition_execute d cb rs init)"
    by (simp add: definition_execute_def stable_execute [OF stable_once_each f])
  then have a: "once_each (steps d ins (definition_execute d cb rs init))"
    by (rule stable_steps [OF stable_once_each])
  have "once_each init"
    by (simp add: once_each_def init_def)
  then have "once_each (definition_resume d saved cb rs' init)"
    by (auto simp: definition_resume_def once_each_emit once_each_act
        stable_resume [OF stable_once_each f])
  then have b: "once_each (steps d ins (definition_resume d saved cb rs' init))"
    by (rule stable_steps [OF stable_once_each])
  show ?thesis
    using a b by (auto simp: once_each_def split: if_splits)
qed


theorem enter_and_start_once_witness:
  "count_list (trace (steps
      \<lparr>def_id = ''d1'', warnings = [], processes = [''p1'', ''p2''], entryPointId = Some ''p1'',
       getTargetProcess = [''catch'' \<mapsto> ''p2''], errorListeners = True\<rparr>
      [Immediate [], ProcessEvent (PEnd \<lparr>pe_ref = 2, pe_id = ''p2''\<rparr> [])]
      (definition_execute
        \<lparr>def_id = ''d1'', warnings = [], processes = [''p1'', ''p2''], entryPointId = Some ''p1'',
         getTargetProcess = [''catch'' \<mapsto> ''p2''], errorListeners = True\<rparr>
        False
        [PEnter \<lparr>pe_ref = 1, pe_id = ''p1''\<rparr>, PStart,
         PMessage \<lparr>sourceId = ''throw'', viaId = ''flow'', targetId = ''catch''\<rparr>
           [PEnter \<lparr>pe_ref = 2, pe_id = ''p2''\<rparr>, PStart]]
        init))) (Emit EvEnter) \<le> 1"
  using enter_and_start_once [of
      "\<lparr>def_id = ''d1'', warnings = [], processes = [''p1'', ''p2''], entryPointId = Some ''p1'',
       getTargetProcess = [''catch'' \<mapsto> ''p2''], errorListeners = True\<rparr>"
      "[Immediate [], ProcessEvent (PEnd \<lparr>pe_ref = 2, pe_id = ''p2''\<rparr> [])]" False
      "[PEnter \<lparr>pe_ref = 1, pe_id = ''p1''\<rparr>, PStart,
         PMessage \<lparr>sourceId = ''throw'', viaId = ''flow'', targetId = ''catch''\<rparr>
           [PEnter \<lparr>pe_ref = 2, pe_id = ''p2''\<rparr>, PStart]]"]
  by blast

subsection \<open>Stopping a run\<close>














subsection \<open>Completion of a run and the outputs of its Processes\<close>

lemma settled_act: "\<not> is_completion a \<Longrightarrow> settled st \<Longrightarrow> settled (act a st)"
  by (simp add: settled_def act_def)

lemma settled_complete: "running st = [] \<Longrightarrow> settled (complete d err st)"
  by (auto simp: settled_def complete_def Let_def teardown_def emit_def act_def andThen_def
      throw_def split: option.splits)

lemma settled_onEnter: "listening st \<Longrightarrow> settled st \<Longrightarrow> settled (onEnter d pe st)"
  by (auto simp: settled_def onEnter_def Let_def emit_def act_def)

lemma settled_onStart: "listening st \<Longrightarrow> settled st \<Longrightarrow> settled (onStart d st)"
  by (auto simp: settled_def onStart_def Let_def emit_def act_def)

lemma settled_onEnd: "listening st \<Longrightarrow> settled st \<Longrightarrow> settled (onEnd d pe out st)"
  by (auto simp: onEnd_def Let_def settled_complete split: option.splits)
     (auto simp: settled_def act_def)

lemma settled_handle:
  "error_free e \<longrightarrow> settled st \<longrightarrow> settled (handle d e st)"
  "error_frees es \<longrightarrow> settled st \<longrightarrow> settled (handles d es st)"
  "error_frees rs \<longrightarrow> settled st \<longrightarrow> settled (onMessage d m rs st)"
proof (induction d e st and d es st and d m rs st rule: handle_handles_onMessage.induct)
  case (8 d m rs st)
  have a: "settled s \<Longrightarrow> settled (throw e s)" for e s
    by (simp add: settled_def throw_def)
  have c: "settled s \<Longrightarrow> settled (setImmediate t m s)" for t s
    by (simp add: settled_def setImmediate_def)
  from 8 show ?case
    by (auto simp: andThen_def sendMessage_def a c settled_act split: option.splits)
qed (auto simp: settled_onEnter settled_onStart settled_onEnd Let_def)

lemma settled_handles: "error_frees es \<Longrightarrow> settled st \<Longrightarrow> settled (handles d es st)"
  using settled_handle(2) by blast

lemma settled_signal_from:
  "\<forall>pe rs. sg pe = Some rs \<longrightarrow> error_frees rs \<Longrightarrow> settled st \<Longrightarrow>
   settled (snd (signal_from d sg i st))"
proof (induction d sg i st rule: signal_from.induct)
  case (1 d sg i st)
  show ?case
  proof (cases "i < length (running st)")
    case False
    then show ?thesis using 1 by (simp add: signal_from.simps [of d sg i st])
  next
    case True
    then show ?thesis
      using 1 by (cases "sg (running st ! i)")
        (auto simp: signal_from.simps [of d sg i st] Let_def settled_act settled_handles)
  qed
qed

lemma consumed_by_error_frees:
  "list_all (\<lambda>kv. error_frees (snd kv)) al \<Longrightarrow> consumed_by al pe = Some rs \<Longrightarrow> error_frees rs"
  by (auto simp: consumed_by_def list_all_iff dest!: map_of_SomeD)

lemma settled_run_immediate:
  "error_frees rs \<Longrightarrow> settled st \<Longrightarrow> settled (run_immediate d rs st)"
proof (cases "immediates st")
  case Nil
  assume "settled st"
  then show ?thesis using Nil by (simp add: run_immediate_def)
next
  case (Cons tm q)
  assume e: "error_frees rs" and "settled st"
  then have "settled (st\<lparr>immediates := q\<rparr>)"
    by (simp add: settled_def)
  then have "settled (sendMessage (fst tm) (snd tm) (st\<lparr>immediates := q\<rparr>))"
    by (auto simp: sendMessage_def settled_act split: option.splits)
       (simp add: settled_def throw_def)
  then show ?thesis
    using Cons e by (cases tm) (simp add: run_immediate_def andThen_def settled_handles)
qed

lemma settled_step: "process_driven i \<Longrightarrow> settled st \<Longrightarrow> settled (step d i st)"
proof -
  assume p: "process_driven i" and "settled st"
  then have a: "settled (st\<lparr>thrown := None\<rparr>)"
    by (simp add: settled_def)
  show ?thesis
  proof (cases i)
    case (ProcessEvent e)
    then show ?thesis
      using p settled_handle(1) [of e "st\<lparr>thrown := None\<rparr>" d] a
      by (simp only: step_def Let_def input.case process_driven.simps)
  next
    case (Immediate rs)
    then show ?thesis
      using p settled_run_immediate [of rs "st\<lparr>thrown := None\<rparr>" d] a
      by (simp only: step_def Let_def input.case process_driven.simps)
  next
    case (CallSignal al)
    have "settled (snd (definition_signal d (consumed_by al) (st\<lparr>thrown := None\<rparr>)))"
      using p a CallSignal
      by (auto simp: definition_signal_def signal_def
          intro!: settled_signal_from dest: consumed_by_error_frees)
    then show ?thesis
      using CallSignal by (simp only: step_def Let_def input.case)
  next
    case (CallStop al)
    then show ?thesis using p by simp
  qed
qed

lemma settled_steps: "list_all process_driven ins \<Longrightarrow> settled st \<Longrightarrow> settled (steps d ins st)"
  unfolding steps_def by (induction ins arbitrary: st) (simp_all add: settled_step)

lemma settled_execute:
  "error_frees rs \<Longrightarrow> settled (definition_execute d cb rs init)"
proof -
  assume e: "error_frees rs"
  let ?st0 = "(DefinitionExecution init)\<lparr>callback := cb\<rparr>"
  have r: "running ?st0 = []" and t: "trace ?st0 = []" "trace (DefinitionExecution init) = []"
    by (simp_all add: DefinitionExecution_def init_def)
  have "settled (act (Run p) (setup_listeners ?st0))" for p
    by (simp add: settled_def act_def setup_listeners_def t)
  then have h: "settled (handles d rs (act (Run p) (setup_listeners ?st0)))" for p
    using e by (simp add: settled_handles)
  have x: "settled (throw x (setup_listeners ?st0))" for x
    by (simp add: settled_def throw_def setup_listeners_def t)
  show ?thesis
    by (simp add: definition_execute_def execute_def Let_def settled_complete r h x
        split: option.splits)
qed


lemma stable_results_match: "stable results_match"
  by (auto simp: stable_def results_match_def onEnter_def onStart_def onEnd_def complete_def
      Let_def emit_def act_def throw_def andThen_def teardown_def
      split: option.splits devent.splits elim: is_call.elims)

lemma settled_resume_each:
  "list_all (\<lambda>p. error_frees (rs p)) ps \<Longrightarrow> settled st \<Longrightarrow>
   settled (resume_each d saved rs ps st)"
proof (induction ps arbitrary: st)
  case Nil
  then show ?case by simp
next
  case (Cons p ps)
  have "settled (act (Resume p (saved p)) st)"
    using Cons.prems by (simp add: settled_act)
  then have "settled (handles d (rs p) (act (Resume p (saved p)) st))"
    using Cons.prems by (simp add: settled_handles)
  then show ?case
    using Cons by (simp add: Let_def)
qed

lemma settled_definition_resume:
  assumes "list_all (\<lambda>p. error_frees (rs p)) (processes d)"
  shows "settled (definition_resume d saved cb rs init)"
proof (cases "warnings d = []")
  case False
  then show ?thesis
    by (simp add: definition_resume_def settled_def emit_def act_def throw_def init_def
        split: devent.splits)
next
  case True
  let ?st0 = "(DefinitionExecution init)\<lparr>callback := cb\<rparr>"
  have r: "running ?st0 = []" and t: "trace ?st0 = []"
    by (simp_all add: DefinitionExecution_def init_def)
  have "settled (setup_listeners ?st0)"
    by (simp add: settled_def setup_listeners_def DefinitionExecution_def init_def)
  then have "settled (resume_each d saved rs (processes d) (setup_listeners ?st0))"
    using assms by (rule settled_resume_each [rotated])
  then show ?thesis
    using True by (simp add: definition_resume_def resume_def Let_def settled_complete r)
qed

lemma results_match_definition_resume: "results_match (definition_resume d saved cb rs init)"
proof -
  have "results_match (DefinitionExecution init)"
    by (simp add: results_match_def DefinitionExecution_def init_def)
  then have "results_match (resume d saved cb rs (DefinitionExecution init))"
    by (rule stable_resume [OF stable_results_match])
  moreover have "results_match (emit d ev init)" "results_match (act (Callback x) init)" for ev x
    by (cases ev; simp add: results_match_def emit_def act_def throw_def init_def)
       (simp add: results_match_def act_def init_def)
  ultimately show ?thesis
    by (simp add: definition_resume_def)
qed

lemma onEnd_running_exact:
  assumes "findIndex (\<lambda>p. pe_ref p = pe_ref pe) (running st) = Some i"
  shows "completed (onEnd d pe out st) = completed st @ [running st ! i]
         \<and> running (onEnd d pe out st) = splice1 i (running st)
         \<and> trace (onEnd d pe out st) =
             trace st @ AssignResult out #
               (if splice1 i (running st) = []
                then (if callback st then [Callback None] else []) @ [Emit EvEnd] else [])"
  using assms
  by (auto simp: onEnd_def Let_def complete_def teardown_def emit_def act_def)

text \<open>
  C5, as the code has it. In a run begun by \<open>execute\<close> or by \<open>resume\<close> that is not
  stopped and in which no Process reports an error, once a completion has happened
  (the end event, the completion callback) the running list is empty, and the outputs
  handed to \<open>environment.assignResult\<close> are as many as the completed Processes. The end
  event of a process execution that is in the running list moves it to the completed
  list and hands its output to \<open>environment.assignResult\<close>; if the running list has
  become empty the completion follows in the same handler (the callback, if there is
  one, without an error, then the end event), and otherwise nothing follows.
\<close>

theorem completion_after_process_end:
  assumes "error_frees rs" and "list_all (\<lambda>p. error_frees (rs' p)) (processes d)"
    and "list_all process_driven ins"
  shows "(list_ex is_completion (trace (steps d ins (definition_execute d cb rs init)))
            \<longrightarrow> running (steps d ins (definition_execute d cb rs init)) = [])
         \<and> length (filter is_assign (trace (steps d ins (definition_execute d cb rs init))))
             = length (completed (steps d ins (definition_execute d cb rs init)))
         \<and> (list_ex is_completion (trace (steps d ins (definition_resume d saved cb rs' init)))
            \<longrightarrow> running (steps d ins (definition_resume d saved cb rs' init)) = [])
         \<and> length (filter is_assign (trace (steps d ins (definition_resume d saved cb rs' init))))
             = length (completed (steps d ins (definition_resume d saved cb rs' init)))
         \<and> (findIndex (\<lambda>p. pe_ref p = pe_ref pe) (running st) = Some i \<longrightarrow>
              completed (onEnd d pe out st) = completed st @ [running st ! i]
              \<and> running (onEnd d pe out st) = splice1 i (running st)
              \<and> trace (onEnd d pe out st) =
                  trace st @ AssignResult out #
                    (if splice1 i (running st) = []
                     then (if callback st then [Callback None] else []) @ [Emit EvEnd]
                     else []))"
proof -
  have "settled (steps d ins (definition_execute d cb rs init))"
    using assms by (simp add: settled_steps settled_execute)
  then have a: "list_ex is_completion (trace (steps d ins (definition_execute d cb rs init)))
            \<longrightarrow> running (steps d ins (definition_execute d cb rs init)) = []"
    by (simp add: settled_def)
  have "results_match (DefinitionExecution init)"
    by (simp add: results_match_def DefinitionExecution_def init_def)
  then have "results_match (definition_execute d cb rs init)"
    by (simp add: definition_execute_def stable_execute [OF stable_results_match])
  then have "results_match (steps d ins (definition_execute d cb rs init))"
    by (rule stable_steps [OF stable_results_match])
  then have b: "length (filter is_assign (trace (steps d ins (definition_execute d cb rs init))))
             = length (completed (steps d ins (definition_execute d cb rs init)))"
    by (simp add: results_match_def)
  have "settled (steps d ins (definition_resume d saved cb rs' init))"
    using assms by (simp add: settled_steps settled_definition_resume)
  then have c: "list_ex is_completion (trace (steps d ins (definition_resume d saved cb rs' init)))
            \<longrightarrow> running (steps d ins (definition_resume d saved cb rs' init)) = []"
    by (simp add: settled_def)
  have "results_match (steps d ins (definition_resume d saved cb rs' init))"
    by (rule stable_steps [OF stable_results_match results_match_definition_resume])
  then have e: "length (filter is_assign (trace (steps d ins (definition_resume d saved cb rs' init))))
             = length (completed (steps d ins (definition_resume d saved cb rs' init)))"
    by (simp add: results_match_def)
  show ?thesis
    using a b c e onEnd_running_exact by blast
qed

theorem completion_after_process_end_witness:
  "error_frees [PEnter \<lparr>pe_ref = 1, pe_id = ''p1''\<rparr>, PStart]
   \<and> list_all process_driven [ProcessEvent (PEnd \<lparr>pe_ref = 1, pe_id = ''p1''\<rparr> [(''a'', ''b'')])]
   \<and> findIndex (\<lambda>p. pe_ref p = pe_ref \<lparr>pe_ref = 1, pe_id = ''p1''\<rparr>)
        (running (definition_execute
           \<lparr>def_id = ''d1'', warnings = [], processes = [''p1''], entryPointId = Some ''p1'',
            getTargetProcess = Map.empty, errorListeners = True\<rparr>
           True [PEnter \<lparr>pe_ref = 1, pe_id = ''p1''\<rparr>, PStart] init)) = Some 0
   \<and> list_ex is_completion (trace (steps
        \<lparr>def_id = ''d1'', warnings = [], processes = [''p1''], entryPointId = Some ''p1'',
         getTargetProcess = Map.empty, errorListeners = True\<rparr>
        [ProcessEvent (PEnd \<lparr>pe_ref = 1, pe_id = ''p1''\<rparr> [(''a'', ''b'')])]
        (definition_execute
           \<lparr>def_id = ''d1'', warnings = [], processes = [''p1''], entryPointId = Some ''p1'',
            getTargetProcess = Map.empty, errorListeners = True\<rparr>
           True [PEnter \<lparr>pe_ref = 1, pe_id = ''p1''\<rparr>, PStart] init)))
   \<and> running (steps
        \<lparr>def_id = ''d1'', warnings = [], processes = [''p1''], entryPointId = Some ''p1'',
         getTargetProcess = Map.empty, errorListeners = True\<rparr>
        [ProcessEvent (PEnd \<lparr>pe_ref = 1, pe_id = ''p1''\<rparr> [(''a'', ''b'')])]
        (definition_execute
           \<lparr>def_id = ''d1'', warnings = [], processes = [''p1''], entryPointId = Some ''p1'',
            getTargetProcess = Map.empty, errorListeners = True\<rparr>
           True [PEnter \<lparr>pe_ref = 1, pe_id = ''p1''\<rparr>, PStart] init)) = []
   \<and> list_ex is_completion (trace (steps
        \<lparr>def_id = ''d1'', warnings = [], processes = [''p1''], entryPointId = Some ''p1'',
         getTargetProcess = Map.empty, errorListeners = True\<rparr>
        [ProcessEvent (PEnd \<lparr>pe_ref = 1, pe_id = ''p1''\<rparr> [(''a'', ''b'')])]
        (definition_resume
           \<lparr>def_id = ''d1'', warnings = [], processes = [''p1''], entryPointId = Some ''p1'',
            getTargetProcess = Map.empty, errorListeners = True\<rparr>
           Map.empty True (\<lambda>p. [PEnter \<lparr>pe_ref = 1, pe_id = ''p1''\<rparr>, PStart]) init)))
   \<and> running (steps
        \<lparr>def_id = ''d1'', warnings = [], processes = [''p1''], entryPointId = Some ''p1'',
         getTargetProcess = Map.empty, errorListeners = True\<rparr>
        [ProcessEvent (PEnd \<lparr>pe_ref = 1, pe_id = ''p1''\<rparr> [(''a'', ''b'')])]
        (definition_resume
           \<lparr>def_id = ''d1'', warnings = [], processes = [''p1''], entryPointId = Some ''p1'',
            getTargetProcess = Map.empty, errorListeners = True\<rparr>
           Map.empty True (\<lambda>p. [PEnter \<lparr>pe_ref = 1, pe_id = ''p1''\<rparr>, PStart]) init)) = []
   \<and> trace (onEnd
        \<lparr>def_id = ''d1'', warnings = [], processes = [''p1''], entryPointId = Some ''p1'',
         getTargetProcess = Map.empty, errorListeners = True\<rparr>
        \<lparr>pe_ref = 1, pe_id = ''p1''\<rparr> [(''a'', ''b'')]
        (definition_execute
           \<lparr>def_id = ''d1'', warnings = [], processes = [''p1''], entryPointId = Some ''p1'',
            getTargetProcess = Map.empty, errorListeners = True\<rparr>
           True [PEnter \<lparr>pe_ref = 1, pe_id = ''p1''\<rparr>, PStart] init))
      = [Run ''p1'', Emit EvEnter, Emit EvStart, AssignResult [(''a'', ''b'')], Callback None,
         Emit EvEnd]
   \<and> completed (onEnd
        \<lparr>def_id = ''d1'', warnings = [], processes = [''p1''], entryPointId = Some ''p1'',
         getTargetProcess = Map.empty, errorListeners = True\<rparr>
        \<lparr>pe_ref = 1, pe_id = ''p1''\<rparr> [(''a'', ''b'')]
        (definition_execute
           \<lparr>def_id = ''d1'', warnings = [], processes = [''p1''], entryPointId = Some ''p1'',
            getTargetProcess = Map.empty, errorListeners = True\<rparr>
           True [PEnter \<lparr>pe_ref = 1, pe_id = ''p1''\<rparr>, PStart] init))
      = [\<lparr>pe_ref = 1, pe_id = ''p1''\<rparr>]"
proof -
  let ?d = "\<lparr>def_id = ''d1'', warnings = [], processes = [''p1''], entryPointId = Some ''p1'',
         getTargetProcess = Map.empty, errorListeners = True\<rparr>"
  let ?pe = "\<lparr>pe_ref = 1, pe_id = ''p1''\<rparr>"
  let ?rs = "\<lambda>p :: string. [PEnter ?pe, PStart]"
  let ?st = "definition_execute ?d True [PEnter ?pe, PStart] init"
  let ?ins = "[ProcessEvent (PEnd ?pe [(''a'', ''b'')])]"
  have h1: "error_frees [PEnter ?pe, PStart]" and h2: "list_all process_driven ?ins"
    and h4: "list_all (\<lambda>p. error_frees (?rs p)) (processes ?d)"
    by simp_all
  have h3: "findIndex (\<lambda>p. pe_ref p = pe_ref ?pe) (running ?st) = Some 0"
    by code_simp
  have e: "list_ex is_completion (trace (steps ?d ?ins ?st))"
    "list_ex is_completion (trace (steps ?d ?ins (definition_resume ?d Map.empty True ?rs init)))"
    by code_simp+
  have c: "completed ?st = []" and r: "running ?st = [?pe]" and k: "callback ?st"
    and t: "trace ?st = [Run ''p1'', Emit EvEnter, Emit EvStart]"
    by code_simp+
  show ?thesis
    using h1 h2 h3 e c r k t
      completion_after_process_end [OF h1 h4 h2, where cb = True and saved = Map.empty
        and pe = ?pe and st = ?st and i = 0 and out = "[(''a'', ''b'')]"]
    by (simp add: splice1_def)
qed

text \<open>
  C5 as stated fails: \<open>stop()\<close> completes the run, emitting the end event, while the
  stopped Process is still in the running list.
\<close>

theorem completion_while_running_counterexample:
  "running (steps
      \<lparr>def_id = ''d1'', warnings = [], processes = [''p1''], entryPointId = Some ''p1'',
       getTargetProcess = Map.empty, errorListeners = True\<rparr>
      [CallStop []]
      (definition_execute
        \<lparr>def_id = ''d1'', warnings = [], processes = [''p1''], entryPointId = Some ''p1'',
         getTargetProcess = Map.empty, errorListeners = True\<rparr>
        False [PEnter \<lparr>pe_ref = 1, pe_id = ''p1''\<rparr>, PStart] init))
     = [\<lparr>pe_ref = 1, pe_id = ''p1''\<rparr>]
   \<and> trace (steps
      \<lparr>def_id = ''d1'', warnings = [], processes = [''p1''], entryPointId = Some ''p1'',
       getTargetProcess = Map.empty, errorListeners = True\<rparr>
      [CallStop []]
      (definition_execute
        \<lparr>def_id = ''d1'', warnings = [], processes = [''p1''], entryPointId = Some ''p1'',
         getTargetProcess = Map.empty, errorListeners = True\<rparr>
        False [PEnter \<lparr>pe_ref = 1, pe_id = ''p1''\<rparr>, PStart] init))
     = [Run ''p1'', Emit EvEnter, Emit EvStart, StopProcess \<lparr>pe_ref = 1, pe_id = ''p1''\<rparr>,
        Emit EvEnd]"
  by code_simp

subsection \<open>Signalling the running Processes\<close>

lemma signal_from_none:
  "\<forall>pe \<in> set (drop i (running st)). sg pe = None \<Longrightarrow>
   signal_from d sg i st =
     (JsUndefined, st\<lparr>trace := trace st @ map SignalProcess (drop i (running st))\<rparr>)"
proof (induction d sg i st rule: signal_from.induct)
  case (1 d sg i st)
  show ?case
  proof (cases "i < length (running st)")
    case False
    then show ?thesis by (simp add: signal_from.simps [of d sg i st])
  next
    case True
    let ?pe = "running st ! i"
    let ?st1 = "act (SignalProcess ?pe) st"
    have d: "drop i (running st) = ?pe # drop (Suc i) (running st)"
      using True by (simp add: Cons_nth_drop_Suc)
    then have n: "sg ?pe = None" and r: "\<forall>pe \<in> set (drop (Suc i) (running ?st1)). sg pe = None"
      using 1(2) by (simp_all add: act_def)
    have "signal_from d sg i st = signal_from d sg (Suc i) ?st1"
      using True n by (simp add: signal_from.simps [of d sg i st])
    also have "\<dots> = (JsUndefined,
        ?st1\<lparr>trace := trace ?st1 @ map SignalProcess (drop (Suc i) (running ?st1))\<rparr>)"
      using 1(1) [OF True refl refl n r] .
    finally show ?thesis
      using d by (simp add: act_def)
  qed
qed

lemma signal_from_first:
  "running st = xs @ pe # ys \<Longrightarrow> \<forall>p \<in> set xs. sg p = None \<Longrightarrow> sg pe = Some rs \<Longrightarrow>
   i \<le> length xs \<Longrightarrow>
   signal_from d sg i st =
     (let st2 = handles d rs (st\<lparr>trace := trace st @ map SignalProcess (drop i xs @ [pe])\<rparr>)
      in (if thrown st2 = None then JsTrue else JsUndefined, st2))"
proof (induction d sg i st rule: signal_from.induct)
  case (1 d sg i st)
  have len: "i < length (running st)"
    using 1(2,5) by simp
  show ?case
  proof (cases "i = length xs")
    case True
    then have "running st ! i = pe"
      using 1(2) by simp
    then have "signal_from d sg i st =
       (let st2 = handles d rs (act (SignalProcess pe) st)
        in (if thrown st2 = None then JsTrue else JsUndefined, st2))"
      using len 1(4) by (subst signal_from.simps) (simp add: Let_def)
    then show ?thesis
      using True by (simp add: act_def)
  next
    case False
    then have lt: "i < length xs"
      using 1(5) by simp
    let ?p = "running st ! i"
    let ?st1 = "act (SignalProcess ?p) st"
    have p: "?p = xs ! i"
      using lt 1(2) by (simp add: nth_append)
    then have n: "sg ?p = None"
      using 1(3) lt by simp
    have d: "drop i xs = ?p # drop (Suc i) xs"
      using lt p by (simp add: Cons_nth_drop_Suc)
    have "signal_from d sg i st = signal_from d sg (Suc i) ?st1"
      using len n by (simp add: signal_from.simps [of d sg i st])
    also have "\<dots> =
       (let st2 = handles d rs (?st1\<lparr>trace := trace ?st1 @ map SignalProcess (drop (Suc i) xs @ [pe])\<rparr>)
        in (if thrown st2 = None then JsTrue else JsUndefined, st2))"
      using 1(1) [OF len refl refl n] 1(2,3,4) lt by (simp add: act_def)
    finally show ?thesis
      using d by (simp add: act_def)
  qed
qed

text \<open>
  C8, as the code has it. \<open>signal\<close> of the Definition never hands back \<open>false\<close>: it
  hands back \<open>true\<close> or nothing (\<open>undefined\<close>). Without an execution it does nothing.
  With one, the running process executions are asked in order; if none consumes the
  signal, all were asked and the result is \<open>undefined\<close>; if \<open>pe\<close> is the first that
  consumes it, those before \<open>pe\<close> and \<open>pe\<close> were asked, none after it, and the result
  is \<open>true\<close>.
\<close>

theorem signal_first_success:
  "fst (definition_signal d sg st) \<noteq> JsFalse
   \<and> (\<not> definitionExecution st \<longrightarrow> definition_signal d sg st = (JsUndefined, st))
   \<and> (definitionExecution st \<longrightarrow> (\<forall>pe \<in> set (running st). sg pe = None) \<longrightarrow>
        definition_signal d sg st =
          (JsUndefined, st\<lparr>trace := trace st @ map SignalProcess (running st)\<rparr>))
   \<and> (definitionExecution st \<longrightarrow> running st = xs @ pe # ys \<longrightarrow> (\<forall>p \<in> set xs. sg p = None) \<longrightarrow>
        sg pe = Some rs \<longrightarrow>
        thrown (handles d rs (st\<lparr>trace := trace st @ map SignalProcess (xs @ [pe])\<rparr>)) = None \<longrightarrow>
        definition_signal d sg st =
          (JsTrue, handles d rs (st\<lparr>trace := trace st @ map SignalProcess (xs @ [pe])\<rparr>)))"
proof -
  have never: "fst (signal_from d sg i st) \<noteq> JsFalse" for i st
  proof (induction d sg i st rule: signal_from.induct)
    case (1 d sg i st)
    show ?case
    proof (cases "i < length (running st)")
      case False
      then show ?thesis by (simp add: signal_from.simps [of d sg i st])
    next
      case True
      then show ?thesis
        using 1 by (cases "sg (running st ! i)")
          (auto simp: signal_from.simps [of d sg i st] Let_def)
    qed
  qed
  have a: "fst (definition_signal d sg st) \<noteq> JsFalse"
    by (simp add: definition_signal_def signal_def never)
  have b: "\<not> definitionExecution st \<longrightarrow> definition_signal d sg st = (JsUndefined, st)"
    by (simp add: definition_signal_def)
  have c: "definitionExecution st \<longrightarrow> (\<forall>pe \<in> set (running st). sg pe = None) \<longrightarrow>
        definition_signal d sg st =
          (JsUndefined, st\<lparr>trace := trace st @ map SignalProcess (running st)\<rparr>)"
    using signal_from_none [of 0 st sg d] by (simp add: definition_signal_def signal_def)
  have e: "definitionExecution st \<longrightarrow> running st = xs @ pe # ys \<longrightarrow> (\<forall>p \<in> set xs. sg p = None) \<longrightarrow>
        sg pe = Some rs \<longrightarrow>
        thrown (handles d rs (st\<lparr>trace := trace st @ map SignalProcess (xs @ [pe])\<rparr>)) = None \<longrightarrow>
        definition_signal d sg st =
          (JsTrue, handles d rs (st\<lparr>trace := trace st @ map SignalProcess (xs @ [pe])\<rparr>))"
    using signal_from_first [of st xs pe ys sg rs 0 d]
    by (simp add: definition_signal_def signal_def Let_def)
  show ?thesis
    using a b c e by blast
qed

theorem signal_first_success_witness:
  "running (definition_execute
      \<lparr>def_id = ''d1'', warnings = [], processes = [''p1'', ''p2''], entryPointId = Some ''p1'',
       getTargetProcess = Map.empty, errorListeners = True\<rparr>
      False [PEnter \<lparr>pe_ref = 1, pe_id = ''p1''\<rparr>, PStart, PEnter \<lparr>pe_ref = 2, pe_id = ''p2''\<rparr>,
             PEnter \<lparr>pe_ref = 3, pe_id = ''p3''\<rparr>] init)
     = [\<lparr>pe_ref = 1, pe_id = ''p1''\<rparr>] @ \<lparr>pe_ref = 2, pe_id = ''p2''\<rparr> # [\<lparr>pe_ref = 3, pe_id = ''p3''\<rparr>]
   \<and> consumed_by [(2, []), (3, [])] \<lparr>pe_ref = 1, pe_id = ''p1''\<rparr> = None
   \<and> consumed_by [(2, []), (3, [])] \<lparr>pe_ref = 2, pe_id = ''p2''\<rparr> = Some []
   \<and> definition_signal
        \<lparr>def_id = ''d1'', warnings = [], processes = [''p1'', ''p2''], entryPointId = Some ''p1'',
         getTargetProcess = Map.empty, errorListeners = True\<rparr>
        (consumed_by [(2, []), (3, [])])
        (definition_execute
          \<lparr>def_id = ''d1'', warnings = [], processes = [''p1'', ''p2''], entryPointId = Some ''p1'',
           getTargetProcess = Map.empty, errorListeners = True\<rparr>
          False [PEnter \<lparr>pe_ref = 1, pe_id = ''p1''\<rparr>, PStart, PEnter \<lparr>pe_ref = 2, pe_id = ''p2''\<rparr>,
                 PEnter \<lparr>pe_ref = 3, pe_id = ''p3''\<rparr>] init)
     = (JsTrue,
        (definition_execute
          \<lparr>def_id = ''d1'', warnings = [], processes = [''p1'', ''p2''], entryPointId = Some ''p1'',
           getTargetProcess = Map.empty, errorListeners = True\<rparr>
          False [PEnter \<lparr>pe_ref = 1, pe_id = ''p1''\<rparr>, PStart, PEnter \<lparr>pe_ref = 2, pe_id = ''p2''\<rparr>,
                 PEnter \<lparr>pe_ref = 3, pe_id = ''p3''\<rparr>] init)
        \<lparr>trace := [Run ''p1'', Emit EvEnter, Emit EvStart,
                   SignalProcess \<lparr>pe_ref = 1, pe_id = ''p1''\<rparr>,
                   SignalProcess \<lparr>pe_ref = 2, pe_id = ''p2''\<rparr>]\<rparr>)"
proof -
  let ?d = "\<lparr>def_id = ''d1'', warnings = [], processes = [''p1'', ''p2''], entryPointId = Some ''p1'',
       getTargetProcess = Map.empty, errorListeners = True\<rparr>"
  let ?p1 = "\<lparr>pe_ref = 1, pe_id = ''p1''\<rparr>"
  let ?p2 = "\<lparr>pe_ref = 2, pe_id = ''p2''\<rparr>"
  let ?p3 = "\<lparr>pe_ref = 3, pe_id = ''p3''\<rparr>"
  let ?st = "definition_execute ?d False [PEnter ?p1, PStart, PEnter ?p2, PEnter ?p3] init"
  let ?sg = "consumed_by [(2, []), (3, [])]"
  have h0: "definitionExecution ?st"
    by code_simp
  have h1: "running ?st = [?p1] @ ?p2 # [?p3]"
    by code_simp
  have h2: "\<forall>p \<in> set [?p1]. ?sg p = None" and h3: "?sg ?p2 = Some []"
    by (simp_all add: consumed_by_def)
  have t: "trace ?st = [Run ''p1'', Emit EvEnter, Emit EvStart]" and h4: "thrown ?st = None"
    by code_simp+
  show ?thesis
    using h0 h1 h2 h3 h4 t
      signal_first_success [of ?d ?sg ?st "[?p1]" ?p2 "[?p3]" "[]"]
    by simp
qed

text \<open>
  C8 as stated fails: when no running Process consumes the signal, what \<open>signal\<close> hands
  back is \<open>undefined\<close>, not the boolean \<open>false\<close>.
\<close>

theorem signal_undefined_counterexample:
  "fst (definition_signal
      \<lparr>def_id = ''d1'', warnings = [], processes = [''p1''], entryPointId = Some ''p1'',
       getTargetProcess = Map.empty, errorListeners = True\<rparr>
      (consumed_by [])
      (definition_execute
        \<lparr>def_id = ''d1'', warnings = [], processes = [''p1''], entryPointId = Some ''p1'',
         getTargetProcess = Map.empty, errorListeners = True\<rparr>
        False [PEnter \<lparr>pe_ref = 1, pe_id = ''p1''\<rparr>, PStart] init)) = JsUndefined
   \<and> fst (definition_signal
      \<lparr>def_id = ''d1'', warnings = [], processes = [''p1''], entryPointId = Some ''p1'',
       getTargetProcess = Map.empty, errorListeners = True\<rparr>
      (consumed_by [])
      (definition_execute
        \<lparr>def_id = ''d1'', warnings = [], processes = [''p1''], entryPointId = Some ''p1'',
         getTargetProcess = Map.empty, errorListeners = True\<rparr>
        False [PEnter \<lparr>pe_ref = 1, pe_id = ''p1''\<rparr>, PStart] init)) \<noteq> JsFalse"
  by code_simp

subsection \<open>Routing a message to its Process\<close>













subsection \<open>A parallel loop signalled in any order\<close>

lemma collect_all: "collect (map (\<lambda>i. Some (f i)) xs) = map f xs"
  by (induction xs) auto

lemma tracks_run: "tracks aid c val {} (run_parallel aid c)"
  by (auto simp: tracks_def run_parallel_def filter_map comp_def map_replicate_const
      intro: nth_equalityI)

lemma tracks_signal:
  assumes "tracks aid c val done ls" and "i < c" and "i \<notin> done"
  shows "tracks aid c val (insert i done) (signal_context i (val i) ls)"
proof -
  have w: "i \<in> set (waiting ls)"
    using assms by (simp add: tracks_def)
  let ?results = "(completedResults ls)[i := Some (val i)]"
  let ?rest = "removeAll i (waiting ls)"
  have r: "?results = map (\<lambda>j. if j \<in> insert i done then Some (val j) else None) [0..<c]"
    using assms by (auto simp: tracks_def intro!: nth_equalityI simp: nth_list_update)
  have s: "?rest = filter (\<lambda>j. j \<notin> insert i done) [0..<c]"
    using assms by (auto simp: tracks_def removeAll_filter_not_eq intro: filter_cong)
  have e: "?rest = [] \<longleftrightarrow> {..<c} \<subseteq> insert i done"
    unfolding s by (auto simp: filter_empty_conv)
  have n: "\<not> {..<c} \<subseteq> done"
    using assms(2,3) by auto
  have a: "{..<c} \<subseteq> insert i done \<Longrightarrow> collect ?results = map val [0..<c]"
  proof -
    assume "{..<c} \<subseteq> insert i done"
    then have "?results = map (\<lambda>j. Some (val j)) [0..<c]"
      unfolding r by auto
    then show ?thesis
      by (simp add: collect_all)
  qed
  show ?thesis
    using assms(1) w r s e n a assms(2)
    by (auto simp: tracks_def signal_context_def Let_def)
qed

lemma tracks_signal_all:
  "tracks aid c val done ls \<Longrightarrow> distinct order \<Longrightarrow> set order \<inter> done = {} \<Longrightarrow>
   set order \<subseteq> {..<c} \<Longrightarrow>
   tracks aid c val (done \<union> set order) (signal_all val order ls)"
proof (induction order arbitrary: ls "done")
  case Nil
  then show ?case by (simp add: signal_all_def)
next
  case (Cons i order)
  have "tracks aid c val (insert i done) (signal_context i (val i) ls)"
    using Cons.prems by (intro tracks_signal) auto
  then have "tracks aid c val (insert i done \<union> set order)
               (signal_all val order (signal_context i (val i) ls))"
    using Cons.prems by (intro Cons.IH) auto
  then show ?case
    by (simp add: signal_all_def)
qed

text \<open>
  C3. A parallel loop over \<open>c\<close> items, \<open>c\<close> positive, whose contexts are signalled in
  any order that names each of them once (\<open>val i\<close> is the value given to context \<open>i\<close>):
  the wait events are those of the \<open>c\<close> contexts, one each, and the aggregated output
  is the list of the \<open>c\<close> values in spawn order.
\<close>

theorem parallel_loop_any_order:
  assumes "0 < c" and "distinct order" and "set order = {..<c}"
  shows "filter is_wait (loop_events (signal_all val order (run_parallel aid c)))
           = map (\<lambda>i. Wait (executionContextId aid (Parallel i))) [0..<c]
         \<and> length (filter is_wait (loop_events (signal_all val order (run_parallel aid c)))) = c
         \<and> aggregated (signal_all val order (run_parallel aid c)) = Some (map val [0..<c])
         \<and> length (map val [0..<c]) = c"
proof -
  have "tracks aid c val ({} \<union> set order) (signal_all val order (run_parallel aid c))"
    using assms by (intro tracks_signal_all tracks_run) auto
  then show ?thesis
    using assms by (simp add: tracks_def aggregated_def)
qed

text \<open>The three contexts of the tests, signalled in reverse spawn order.\<close>

theorem parallel_loop_any_order_witness:
  "0 < (3::nat) \<and> distinct [2, 1, 0::nat] \<and> set [2, 1, 0::nat] = {..<3}
   \<and> aggregated (signal_all (\<lambda>i. [''a'', ''b'', ''c''] ! i) [2, 1, 0] (run_parallel ''task'' 3))
       = Some [''a'', ''b'', ''c'']"
proof -
  have h: "0 < (3::nat)" "distinct [2, 1, 0::nat]" "set [2, 1, 0::nat] = {..<3}"
    by auto
  show ?thesis
    using h parallel_loop_any_order [OF h, of "\<lambda>i. [''a'', ''b'', ''c''] ! i" "''task''"]
    by (simp add: upt_rec)
qed

subsection \<open>The error of a failed run\<close>

text \<open>
  C7, at the failing input. A Definition with a listener for its error event is executed
  without a completion callback. When validation left the warning \<open>w1\<close>, the run emits
  the error event and then the end event. When the entry Process reports the error
  \<open>boom\<close> after it has started, the run again emits the error event and then the end
  event. With a completion callback the same failure reaches the callback once, with
  the error, and no event is emitted.
\<close>

theorem failed_run_error_then_end:
  "trace (definition_execute
      \<lparr>def_id = ''d1'', warnings = [''w1''], processes = [''p1''], entryPointId = Some ''p1'',
       getTargetProcess = Map.empty, errorListeners = True\<rparr>
      False [] init)
     = [Emit (EvError ''w1''), Emit EvEnd]
   \<and> trace (steps
      \<lparr>def_id = ''d1'', warnings = [], processes = [''p1''], entryPointId = Some ''p1'',
       getTargetProcess = Map.empty, errorListeners = True\<rparr>
      [ProcessEvent (PError ''boom'')]
      (definition_execute
        \<lparr>def_id = ''d1'', warnings = [], processes = [''p1''], entryPointId = Some ''p1'',
         getTargetProcess = Map.empty, errorListeners = True\<rparr>
        False [PEnter \<lparr>pe_ref = 1, pe_id = ''p1''\<rparr>, PStart] init))
     = [Run ''p1'', Emit EvEnter, Emit EvStart, Emit (EvError ''boom''), Emit EvEnd]
   \<and> trace (definition_execute
      \<lparr>def_id = ''d1'', warnings = [''w1''], processes = [''p1''], entryPointId = Some ''p1'',
       getTargetProcess = Map.empty, errorListeners = True\<rparr>
      True [] init)
     = [Callback (Some ''w1'')]"
  by code_simp

end
